theory Spec2Isabelle
  imports Main
begin

section \<open>Errors\<close>

text \<open>
  A Go \<^verbatim>\<open>error\<close> is a value with a message. Three kinds reach the two dispatch
  functions of \<^verbatim>\<open>api.go\<close>: \<^verbatim>\<open>io.EOF\<close>, an error made by a collaborator (the
  HTTP transport, a read of the body, the JSON library), and an error the file itself
  builds with \<^verbatim>\<open>fmt.Errorf\<close>.
\<close>

datatype error = EOF | Foreign string | Errorf string

fun error_message :: "error \<Rightarrow> string" where
  "error_message EOF = ''EOF''"
| "error_message (Foreign m) = m"
| "error_message (Errorf m) = m"

subsection \<open>The verb \<^verbatim>\<open>%d\<close>\<close>

definition digit_char :: "nat \<Rightarrow> char" where
  "digit_char d = char_of (48 + d)"

fun digits :: "nat \<Rightarrow> string" where
  "digits n = (if n < 10 then [digit_char n] else digits (n div 10) @ [digit_char (n mod 10)])"

declare digits.simps [simp del]

definition Itoa :: "int \<Rightarrow> string" where
  "Itoa i = (if i < 0 then CHR ''-'' # digits (nat (- i)) else digits (nat i))"

section \<open>Byte slices\<close>

text \<open>
  A \<^verbatim>\<open>[]byte\<close> is a \<^typ>\<open>string\<close>, a list of 8-bit characters.
  \<^verbatim>\<open>bytes.HasPrefix\<close> and \<^verbatim>\<open>bytes.TrimPrefix\<close> are as in the Go library.
\<close>

abbreviation nl :: char where
  "nl \<equiv> CHR 0x0A"

definition HasPrefix :: "string \<Rightarrow> string \<Rightarrow> bool" where
  "HasPrefix s p \<longleftrightarrow> length p \<le> length s \<and> take (length p) s = p"

definition TrimPrefix :: "string \<Rightarrow> string \<Rightarrow> string" where
  "TrimPrefix s p = (if HasPrefix s p then drop (length p) s else s)"

subsection \<open>UTF-8 decoding and Unicode white space\<close>

text \<open>
  \<^verbatim>\<open>bytes.TrimSpace\<close> removes leading and trailing white space as Unicode defines
  it, so the bytes are read as UTF-8. \<open>DecodeRune\<close> and \<open>DecodeLastRune\<close> follow
  \<^verbatim>\<open>unicode/utf8\<close>: they return the code point and its width in bytes; a byte sequence
  that is not a valid encoding is the code point \<open>RuneError\<close> of width 1.
\<close>

definition RuneError :: nat where
  "RuneError = 0xFFFD"

definition RuneSelf :: nat where
  "RuneSelf = 0x80"

definition acceptLo :: "nat \<Rightarrow> nat" where
  "acceptLo p0 = (if p0 = 0xE0 then 0xA0 else if p0 = 0xF0 then 0x90 else 0x80)"

definition acceptHi :: "nat \<Rightarrow> nat" where
  "acceptHi p0 = (if p0 = 0xED then 0x9F else if p0 = 0xF4 then 0x8F else 0xBF)"

definition runeSize :: "nat \<Rightarrow> nat" where
  "runeSize p0 = (if p0 < 0xE0 then 2 else if p0 < 0xF0 then 3 else 4)"

definition DecodeRune :: "string \<Rightarrow> nat \<times> nat" where
  "DecodeRune p =
     (if length p < 1 then (RuneError, 0)
      else let p0 = of_char (p ! 0) :: nat in
        if p0 < RuneSelf then (p0, 1)
        else if p0 < 0xC2 \<or> 0xF4 < p0 then (RuneError, 1)
        else if length p < runeSize p0 then (RuneError, 1)
        else let b1 = of_char (p ! 1) :: nat in
          if b1 < acceptLo p0 \<or> acceptHi p0 < b1 then (RuneError, 1)
          else if runeSize p0 \<le> 2 then ((p0 mod 32) * 64 + b1 mod 64, 2)
          else let b2 = of_char (p ! 2) :: nat in
            if b2 < 0x80 \<or> 0xBF < b2 then (RuneError, 1)
            else if runeSize p0 \<le> 3
              then ((p0 mod 16) * 4096 + (b1 mod 64) * 64 + b2 mod 64, 3)
            else let b3 = of_char (p ! 3) :: nat in
              if b3 < 0x80 \<or> 0xBF < b3 then (RuneError, 1)
              else ((p0 mod 8) * 262144 + (b1 mod 64) * 4096 + (b2 mod 64) * 64 + b3 mod 64, 4))"

definition RuneStart :: "char \<Rightarrow> bool" where
  "RuneStart b \<longleftrightarrow> (of_char b :: nat) div 64 \<noteq> 2"

text \<open>
  \<open>lastRuneStart p\<close> is where \<open>DecodeLastRune\<close> starts to decode: it steps back
  from the last byte over at most three more bytes, to the first byte that can start
  an encoding.
\<close>

definition lastRuneStart :: "string \<Rightarrow> nat" where
  "lastRuneStart p =
     (let e = int (length p);
          lim = max 0 (e - 4);
          cands = filter (\<lambda>s. lim \<le> s) [e - 2, e - 3, e - 4]
      in case find (\<lambda>s. RuneStart (p ! nat s)) cands of
           Some s \<Rightarrow> nat s
         | None \<Rightarrow> nat (max 0 (lim - 1)))"

definition DecodeLastRune :: "string \<Rightarrow> nat \<times> nat" where
  "DecodeLastRune p =
     (if length p = 0 then (RuneError, 0)
      else let r = of_char (last p) :: nat in
        if r < RuneSelf then (r, 1)
        else let start = lastRuneStart p;
                 (r', size') = DecodeRune (drop start p)
             in if start + size' \<noteq> length p then (RuneError, 1) else (r', size'))"

definition IsSpace :: "nat \<Rightarrow> bool" where
  "IsSpace r \<longleftrightarrow>
     (if r \<le> 0xFF then r \<in> {0x09, 0x0A, 0x0B, 0x0C, 0x0D, 0x20, 0x85, 0xA0}
      else r = 0x1680 \<or> (0x2000 \<le> r \<and> r \<le> 0x200A) \<or> r = 0x2028 \<or> r = 0x2029
        \<or> r = 0x202F \<or> r = 0x205F \<or> r = 0x3000)"

lemma DecodeRune_width:
  "p \<noteq> [] \<Longrightarrow> 1 \<le> snd (DecodeRune p) \<and> snd (DecodeRune p) \<le> 4"
  by (simp add: DecodeRune_def Let_def)

lemma find_Some_mem: "find P xs = Some x \<Longrightarrow> x \<in> set xs"
  by (induction xs) (auto split: if_splits)

lemma lastRuneStart_lt: "p \<noteq> [] \<Longrightarrow> lastRuneStart p < length p"
  by (auto simp: lastRuneStart_def Let_def split: option.splits dest!: find_Some_mem)

lemma DecodeLastRune_width:
  "p \<noteq> [] \<Longrightarrow> 1 \<le> snd (DecodeLastRune p) \<and> snd (DecodeLastRune p) \<le> length p"
  using lastRuneStart_lt [of p]
  by (auto simp: DecodeLastRune_def Let_def split: prod.splits)

subsection \<open>\<^verbatim>\<open>bytes.TrimSpace\<close>\<close>

text \<open>
  \<^verbatim>\<open>bytes.TrimSpace(s)\<close> is \<^verbatim>\<open>TrimFunc(s, unicode.IsSpace)\<close>: the leading white-space
  code points are dropped first, then the trailing ones. (The library scans ASCII bytes
  without decoding them and falls back to this slice-by-code-point loop at the first
  byte that is not ASCII; the result is the same.) Each loop runs on a shorter slice.
\<close>

function trimLeftSpace :: "string \<Rightarrow> string" where
  "trimLeftSpace s =
     (if s = [] then []
      else let (r, wid) = (if (of_char (s ! 0) :: nat) < RuneSelf then (of_char (s ! 0), 1)
                           else DecodeRune s)
           in if IsSpace r then trimLeftSpace (drop wid s) else s)"
  by pat_completeness auto
termination
proof (relation "measure length", goal_cases)
  case 1
  show ?case by simp
next
  case (2 s x r wid)
  then have "1 \<le> wid"
    using DecodeRune_width [of s] by (cases "DecodeRune s") (auto split: if_splits)
  with 2 show ?case by simp
qed

function trimRightSpace :: "string \<Rightarrow> string" where
  "trimRightSpace s =
     (if s = [] then []
      else let (r, size') = (if (of_char (last s) :: nat) < RuneSelf then (of_char (last s), 1)
                             else DecodeLastRune s)
           in if IsSpace r then trimRightSpace (take (length s - size') s) else s)"
  by pat_completeness auto
termination
proof (relation "measure length", goal_cases)
  case 1
  show ?case by simp
next
  case (2 s x r wid)
  then have "1 \<le> wid"
    using DecodeLastRune_width [of s] by (cases "DecodeLastRune s") (auto split: if_splits)
  with 2 show ?case by simp
qed

declare trimLeftSpace.simps [simp del] trimRightSpace.simps [simp del]

definition TrimSpace :: "string \<Rightarrow> string" where
  "TrimSpace s = trimRightSpace (trimLeftSpace s)"

section \<open>The data model\<close>

text \<open>
  Modelled from the spec: the declarations of \<^verbatim>\<open>CompletionResponse\<close>, its choices,
  and \<^verbatim>\<open>ErrorResponse\<close> are in files of the repository other than \<^verbatim>\<open>api.go\<close>.
  The spec gives a Completion Result a list of ordered choices, each with a text field,
  and a Structured Error an optional nested object with a message field. These are the
  only fields \<^verbatim>\<open>api.go\<close> reads or writes; the others (identifiers, token usage, the
  error's code and type) are left out. The zero value of a \<^verbatim>\<open>CompletionResponse\<close>
  has no choices; the zero value of an \<^verbatim>\<open>ErrorResponse\<close> has a nil \<^verbatim>\<open>Error\<close>.
\<close>

record CompletionChoice =
  Text :: string

record CompletionResponse =
  Choices :: "CompletionChoice list"

record APIError =
  Message :: string

record ErrorResponse =
  Error :: "APIError option"

text \<open>
  The body of an HTTP response: the bytes that can still be read from it, and the error
  a read returns once they are used up (\<open>EOF\<close> for a body that ends cleanly, the
  transport's error for a connection that breaks).
\<close>

record Body =
  bytes :: string
  readErr :: error

record Response =
  StatusCode :: int
  Body :: Body

definition StatusOK :: int where
  "StatusOK = 200"

definition StatusBadRequest :: int where
  "StatusBadRequest = 400"

section \<open>\<^verbatim>\<open>bufio.Reader\<close>\<close>

type_synonym Reader = Body

definition NewReader :: "Body \<Rightarrow> Reader" where
  "NewReader b = b"

text \<open>
  \<^verbatim>\<open>ReadBytes(delim)\<close> returns the bytes up to and including the first \<open>delim\<close>.
  When the input ends before a \<open>delim\<close>, it returns the bytes read before the end
  together with the error: the error is not nil exactly when the returned bytes do not
  end in \<open>delim\<close>.
\<close>

definition ReadBytes :: "Reader \<Rightarrow> char \<Rightarrow> (string \<times> error option) \<times> Reader" where
  "ReadBytes r delim =
     (if delim \<in> set (bytes r)
      then ((takeWhile (\<lambda>c. c \<noteq> delim) (bytes r) @ [delim], None),
            r\<lparr>bytes := tl (dropWhile (\<lambda>c. c \<noteq> delim) (bytes r))\<rparr>)
      else ((bytes r, Some (readErr r)), r\<lparr>bytes := []\<rparr>))"

lemma ReadBytes_shorter:
  "ReadBytes r delim = ((line, None), r') \<Longrightarrow> length (bytes r') < length (bytes r)"
proof -
  assume a: "ReadBytes r delim = ((line, None), r')"
  then have m: "delim \<in> set (bytes r)"
    by (auto simp: ReadBytes_def split: if_splits)
  then have ne: "dropWhile (\<lambda>c. c \<noteq> delim) (bytes r) \<noteq> []"
    by simp
  have "length (dropWhile (\<lambda>c. c \<noteq> delim) (bytes r)) \<le> length (bytes r)"
    by (rule length_dropWhile_le)
  moreover from a m have "bytes r' = tl (dropWhile (\<lambda>c. c \<noteq> delim) (bytes r))"
    by (auto simp: ReadBytes_def)
  ultimately show ?thesis
    using ne by (cases "dropWhile (\<lambda>c. c \<noteq> delim) (bytes r)") auto
qed

section \<open>The dispatch functions of \<^verbatim>\<open>api.go\<close>\<close>

definition dataPrefix :: string where
  "dataPrefix = ''data: ''"

definition doneSequence :: string where
  "doneSequence = ''[DONE]''"

text \<open>
  The result of a streaming call: the two values \<^verbatim>\<open>sendStreamRequest\<close> returns, the
  arguments of the calls of \<^verbatim>\<open>onData\<close> in the order they were made, and the number of
  calls of \<^verbatim>\<open>ReadBytes\<close>.
\<close>

record StreamResult =
  ret_output :: CompletionResponse
  ret_err :: "error option"
  onData_calls :: "CompletionResponse list"
  lines_read :: nat

text \<open>
  The JSON library is a collaborator: \<open>Unmarshal line output\<close> stands for
  \<^verbatim>\<open>json.Unmarshal(line, &output)\<close>. It receives the destination as it is and returns
  it as the call leaves it, with the error (\<open>None\<close> for nil). The loop of
  \<^verbatim>\<open>sendStreamRequest\<close> (lines 143 to 175) follows; \<open>prevText\<close> is declared outside
  the loop and keeps its value from one pass to the next.
\<close>

function stream_loop ::
  "(string \<Rightarrow> CompletionResponse \<Rightarrow> CompletionResponse \<times> error option) \<Rightarrow> Reader \<Rightarrow>
   CompletionResponse \<Rightarrow> string \<Rightarrow> CompletionResponse list \<Rightarrow> nat \<Rightarrow> StreamResult" where
  "stream_loop Unmarshal reader output prevText calls n =
     (case ReadBytes reader nl of
        ((line, Some e), reader') \<Rightarrow>
          \<lparr>ret_output = output, ret_err = Some e, onData_calls = calls, lines_read = Suc n\<rparr>
      | ((line, None), reader') \<Rightarrow>
          let line = TrimSpace line in
          if \<not> HasPrefix line dataPrefix
          then stream_loop Unmarshal reader' output prevText calls (Suc n)
          else
            let line = TrimSpace (TrimPrefix line dataPrefix) in
            if HasPrefix line doneSequence
            then \<lparr>ret_output = output, ret_err = None, onData_calls = calls,
                  lines_read = Suc n\<rparr>
            else
              let prevText = (if length (Choices output) > 0 then Text (Choices output ! 0)
                              else prevText)
              in (case Unmarshal line output of
                   (output, Some e) \<Rightarrow>
                     \<lparr>ret_output = output,
                      ret_err = Some (Errorf (''invalid json stream data: '' @ error_message e)),
                      onData_calls = calls, lines_read = Suc n\<rparr>
                 | (output, None) \<Rightarrow>
                     let output =
                       (if length (Choices output) > 0
                        then output\<lparr>Choices :=
                               list_update (Choices output) 0
                                 ((Choices output ! 0)
                                    \<lparr>Text := prevText @ Text (Choices output ! 0)\<rparr>)\<rparr>
                        else output)
                     in stream_loop Unmarshal reader' output prevText (calls @ [output]) (Suc n)))"
  by pat_completeness auto
termination
  by (relation "measure (\<lambda>(u, r, out, p, cs, n). length (bytes r))")
     (auto dest: ReadBytes_shorter [OF sym])

declare stream_loop.simps [simp del]

text \<open>
  The two dispatch functions. What \<^verbatim>\<open>c.HTTPClient.Do(req)\<close> returns is the argument
  \<open>do\<close>: \<open>Inl\<close> a transport error, \<open>Inr\<close> a response. \<open>DecodeError body\<close> stands
  for \<^verbatim>\<open>json.NewDecoder(res.Body).Decode(&errRes)\<close> on a zero \<^verbatim>\<open>errRes\<close>, and
  \<open>DecodeValue body v\<close> for the same call on the caller's destination.
\<close>

definition sendRequest ::
  "(Body \<Rightarrow> ErrorResponse \<times> error option) \<Rightarrow> (Body \<Rightarrow> 'v \<Rightarrow> 'v \<times> error option) \<Rightarrow>
   error + Response \<Rightarrow> 'v option \<Rightarrow> 'v option \<times> error option" where
  "sendRequest DecodeError DecodeValue do v =
     (case do of
        Inl e \<Rightarrow> (v, Some e)
      | Inr res \<Rightarrow>
          if StatusCode res < StatusOK \<or> StatusCode res \<ge> StatusBadRequest
          then
            (case DecodeError (Body res) of
               (errRes, e) \<Rightarrow>
                 if e \<noteq> None \<or> Error errRes = None
                 then (v, Some (Errorf (''error, status code: '' @ Itoa (StatusCode res))))
                 else (v, Some (Errorf (''error, status code: '' @ Itoa (StatusCode res)
                          @ '', message: '' @ Message (the (Error errRes))))))
          else
            (case v of
               None \<Rightarrow> (None, None)
             | Some d \<Rightarrow> (case DecodeValue (Body res) d of (d', e) \<Rightarrow> (Some d', e))))"

definition sendStreamRequest ::
  "(Body \<Rightarrow> ErrorResponse \<times> error option) \<Rightarrow>
   (string \<Rightarrow> CompletionResponse \<Rightarrow> CompletionResponse \<times> error option) \<Rightarrow>
   error + Response \<Rightarrow> StreamResult" where
  "sendStreamRequest DecodeError Unmarshal do =
     (case do of
        Inl e \<Rightarrow>
          \<lparr>ret_output = \<lparr>Choices = []\<rparr>, ret_err = Some e, onData_calls = [], lines_read = 0\<rparr>
      | Inr res \<Rightarrow>
          if StatusCode res < StatusOK \<or> StatusCode res \<ge> StatusBadRequest
          then
            (case DecodeError (Body res) of
               (errRes, e) \<Rightarrow>
                 if e \<noteq> None \<or> Error errRes = None
                 then \<lparr>ret_output = \<lparr>Choices = []\<rparr>,
                       ret_err = Some (Errorf (''error, status code: '' @ Itoa (StatusCode res))),
                       onData_calls = [], lines_read = 0\<rparr>
                 else \<lparr>ret_output = \<lparr>Choices = []\<rparr>,
                       ret_err = Some (Errorf (''error, status code: '' @ Itoa (StatusCode res)
                          @ '', message: '' @ Message (the (Error errRes)))),
                       onData_calls = [], lines_read = 0\<rparr>)
          else stream_loop Unmarshal (NewReader (Body res)) \<lparr>Choices = []\<rparr> [] [] 0)"

section \<open>Streams, lines and frames\<close>

text \<open>
  The vocabulary of the properties below. A line is what one successful call of
  \<^verbatim>\<open>ReadBytes\<close> returns: bytes ending in the first newline. A data line is a line that
  passes the filter of the loop, its payload is what is left of it for the sentinel
  check and the decoder, and a sentinel is a data line whose payload begins with the
  termination token.
\<close>

definition is_line :: "string \<Rightarrow> bool" where
  "is_line l \<longleftrightarrow> l \<noteq> [] \<and> last l = nl \<and> nl \<notin> set (butlast l)"

definition data_line :: "string \<Rightarrow> bool" where
  "data_line l \<longleftrightarrow> HasPrefix (TrimSpace l) dataPrefix"

definition payload :: "string \<Rightarrow> string" where
  "payload l = TrimSpace (TrimPrefix (TrimSpace l) dataPrefix)"

definition sentinel :: "string \<Rightarrow> bool" where
  "sentinel l \<longleftrightarrow> data_line l \<and> HasPrefix (payload l) doneSequence"

text \<open>
  Steps 6 and 8 of a pass of the loop: the text carried into the pass, and the merge of
  the carried text into the first choice of the value just decoded.
\<close>

definition carried :: "CompletionResponse \<Rightarrow> string \<Rightarrow> string" where
  "carried out prev = (if length (Choices out) > 0 then Text (Choices out ! 0) else prev)"

definition merge_text :: "string \<Rightarrow> CompletionResponse \<Rightarrow> CompletionResponse" where
  "merge_text prev out =
     (if length (Choices out) > 0
      then out\<lparr>Choices := list_update (Choices out) 0
                 ((Choices out ! 0)\<lparr>Text := prev @ Text (Choices out ! 0)\<rparr>)\<rparr>
      else out)"

text \<open>
  The text fragment of a frame is the text of the first choice that decoding its payload
  alone gives. A payload is well formed for a decoder when decoding it succeeds whatever
  the destination holds and gives a first choice with that text. \<open>frames_ok\<close> holds of
  the lines before the sentinel when each is a line and each data line among them is a
  well-formed frame; \<open>fragments\<close> are the text fragments of their frames, in order,
  and \<open>cumulative acc ts\<close> lists the texts that grow from \<open>acc\<close> by the fragments
  \<open>ts\<close>.
\<close>

definition fragment ::
  "(string \<Rightarrow> CompletionResponse \<Rightarrow> CompletionResponse \<times> error option) \<Rightarrow> string \<Rightarrow> string" where
  "fragment um p = Text (Choices (fst (um p \<lparr>Choices = []\<rparr>)) ! 0)"

definition well_formed ::
  "(string \<Rightarrow> CompletionResponse \<Rightarrow> CompletionResponse \<times> error option) \<Rightarrow> string \<Rightarrow> bool" where
  "well_formed um p \<longleftrightarrow>
     (\<forall>d. snd (um p d) = None \<and> Choices (fst (um p d)) \<noteq> []
        \<and> Text (Choices (fst (um p d)) ! 0) = fragment um p)"

definition fragments ::
  "(string \<Rightarrow> CompletionResponse \<Rightarrow> CompletionResponse \<times> error option) \<Rightarrow> string list \<Rightarrow> string list" where
  "fragments um ls = map (\<lambda>l. fragment um (payload l)) (filter data_line ls)"

definition frames_ok ::
  "(string \<Rightarrow> CompletionResponse \<Rightarrow> CompletionResponse \<times> error option) \<Rightarrow> string list \<Rightarrow> bool" where
  "frames_ok um ls \<longleftrightarrow>
     (\<forall>l\<in>set ls. is_line l \<and>
        (data_line l \<longrightarrow> \<not> HasPrefix (payload l) doneSequence \<and> well_formed um (payload l)))"

text \<open>
  \<open>accepted\<close> asks less of the lines than \<open>frames_ok\<close>: each is a line, and each
  data line among them is a frame whose payload decodes without an error, whatever the
  destination holds and whatever the decoder stores there.
\<close>

definition accepted ::
  "(string \<Rightarrow> CompletionResponse \<Rightarrow> CompletionResponse \<times> error option) \<Rightarrow> string list \<Rightarrow> bool" where
  "accepted um ls \<longleftrightarrow>
     (\<forall>l\<in>set ls. is_line l \<and>
        (data_line l \<longrightarrow>
           \<not> HasPrefix (payload l) doneSequence \<and> (\<forall>d. snd (um (payload l) d) = None)))"

fun cumulative :: "string \<Rightarrow> string list \<Rightarrow> string list" where
  "cumulative acc [] = []"
| "cumulative acc (t # ts) = (acc @ t) # cumulative (acc @ t) ts"

text \<open>
  An ASCII byte that is not white space: trimming stops at it without decoding.
\<close>

definition ascii_nonspace :: "char \<Rightarrow> bool" where
  "ascii_nonspace c \<longleftrightarrow> (of_char c :: nat) < RuneSelf \<and> \<not> IsSpace (of_char c)"

text \<open>
  What the caller of a streaming call observes: the two values returned and the calls
  of \<^verbatim>\<open>onData\<close>.
\<close>

definition outcome :: "StreamResult \<Rightarrow> CompletionResponse \<times> error option \<times> CompletionResponse list" where
  "outcome r = (ret_output r, ret_err r, onData_calls r)"

section \<open>Concrete streams\<close>

text \<open>
  To run the two functions on concrete responses, the JSON library's results on the
  payloads used below are tabulated: \<^verbatim>\<open>json.Unmarshal\<close> (the package is
  \<^verbatim>\<open>github.com/goccy/go-json\<close>) on the two frames of the scenario of the spec, on an
  empty object, on an object with an empty list of choices, and on a frame cut off before
  its closing brace. A key that is absent leaves its field of the destination as it was,
  so the empty object changes nothing, and the empty list empties the choices. The
  library decodes in one pass straight into the destination, so on the cut frame it has
  stored the choices before it finds the end of the input. On every other payload the table answers
  with an error and the destination as it was. The error decoder is tabulated on the
  error body of the scenario of the spec, on an empty object, and on anything else, the
  empty body included, where it fails.
\<close>

definition scenario_Unmarshal ::
  "string \<Rightarrow> CompletionResponse \<Rightarrow> CompletionResponse \<times> error option" where
  \<open>scenario_Unmarshal p d =
     (if p = ''{"choices":[{"text":"Hello"}]}''
        then (\<lparr>Choices = [\<lparr>Text = ''Hello''\<rparr>]\<rparr>, None)
      else if p = ''{"choices":[{"text":", world"}]}''
        then (\<lparr>Choices = [\<lparr>Text = '', world''\<rparr>]\<rparr>, None)
      else if p = ''{"choices":[{"text":"!"}]''
        then (\<lparr>Choices = [\<lparr>Text = ''!''\<rparr>]\<rparr>,
              Some (Foreign ''expected comma after object element''))
      else if p = ''{}'' then (d, None)
      else if p = ''{"choices":[]}'' then (d\<lparr>Choices := []\<rparr>, None)
      else (d, Some (Foreign ''invalid character'')))\<close>

definition scenario_DecodeError :: "Body \<Rightarrow> ErrorResponse \<times> error option" where
  \<open>scenario_DecodeError b =
     (if bytes b = ''{"error":{"message":"rate limited"}}''
        then (\<lparr>Error = Some \<lparr>Message = ''rate limited''\<rparr>\<rparr>, None)
      else if bytes b = ''{}'' then (\<lparr>Error = None\<rparr>, None)
      else (\<lparr>Error = None\<rparr>, Some EOF))\<close>

definition hello_line :: string where
  \<open>hello_line = ''data: {"choices":[{"text":"Hello"}]}'' @ [nl]\<close>

definition world_line :: string where
  \<open>world_line = ''data: {"choices":[{"text":", world"}]}'' @ [nl]\<close>

definition done_line :: string where
  \<open>done_line = ''data: [DONE]'' @ [nl]\<close>

definition comment_line :: string where
  "comment_line = '': keep-alive'' @ [nl]"

definition empty_object_line :: string where
  \<open>empty_object_line = ''data: {}'' @ [nl]\<close>


definition cut_line :: string where
  \<open>cut_line = ''data: {"choices":[{"text":"!"}]'' @ [nl]\<close>

section \<open>One pass of the loop\<close>

lemma ReadBytes_line:
  assumes "is_line l" and "bytes r = l @ rest"
  shows "ReadBytes r nl = ((l, None), r\<lparr>bytes := rest\<rparr>)"
proof -
  from assms(1) obtain l0 where l: "l = l0 @ [nl]" and l0: "nl \<notin> set l0"
    unfolding is_line_def by (metis append_butlast_last_id)
  have t: "takeWhile (\<lambda>c. c \<noteq> nl) (l0 @ nl # rest) = l0"
    using l0 by (induction l0) auto
  have d: "dropWhile (\<lambda>c. c \<noteq> nl) (l0 @ nl # rest) = nl # rest"
    using l0 by (induction l0) auto
  show ?thesis
    using assms(2) t d by (simp add: ReadBytes_def l)
qed

lemma ReadBytes_end:
  "nl \<notin> set (bytes r) \<Longrightarrow> ReadBytes r nl = ((bytes r, Some (readErr r)), r\<lparr>bytes := []\<rparr>)"
  by (simp add: ReadBytes_def)

lemma loop_end:
  "nl \<notin> set (bytes r) \<Longrightarrow>
   stream_loop um r out prev cs n =
     \<lparr>ret_output = out, ret_err = Some (readErr r), onData_calls = cs, lines_read = Suc n\<rparr>"
  by (subst stream_loop.simps) (simp add: ReadBytes_end)

lemma loop_skip:
  assumes "is_line l" and "bytes r = l @ rest" and "\<not> data_line l"
  shows "stream_loop um r out prev cs n = stream_loop um (r\<lparr>bytes := rest\<rparr>) out prev cs (Suc n)"
  using assms(3)
  by (subst stream_loop.simps) (simp add: ReadBytes_line [OF assms(1,2)] data_line_def)

lemma loop_done:
  assumes "is_line l" and "bytes r = l @ rest" and "sentinel l"
  shows "stream_loop um r out prev cs n =
     \<lparr>ret_output = out, ret_err = None, onData_calls = cs, lines_read = Suc n\<rparr>"
  using assms(3)
  by (subst stream_loop.simps)
     (simp add: ReadBytes_line [OF assms(1,2)] data_line_def sentinel_def payload_def)

lemma loop_frame:
  assumes "is_line l" and "bytes r = l @ rest" and "data_line l" and "\<not> sentinel l"
  shows "stream_loop um r out prev cs n =
     (case um (payload l) out of
        (out', Some e) \<Rightarrow>
          \<lparr>ret_output = out',
           ret_err = Some (Errorf (''invalid json stream data: '' @ error_message e)),
           onData_calls = cs, lines_read = Suc n\<rparr>
      | (out', None) \<Rightarrow>
          stream_loop um (r\<lparr>bytes := rest\<rparr>) (merge_text (carried out prev) out')
            (carried out prev) (cs @ [merge_text (carried out prev) out']) (Suc n))"
  using assms(3,4)
  by (subst stream_loop.simps)
     (simp add: ReadBytes_line [OF assms(1,2)] data_line_def sentinel_def payload_def
        carried_def merge_text_def Let_def split: prod.splits option.splits)

lemma merge_text_first:
  "Choices d \<noteq> [] \<Longrightarrow>
   Choices (merge_text c d) \<noteq> [] \<and> Text (Choices (merge_text c d) ! 0) = c @ Text (Choices d ! 0)"
  by (simp add: merge_text_def)

lemma carried_first: "Choices d \<noteq> [] \<Longrightarrow> carried d prev = Text (Choices d ! 0)"
  by (simp add: carried_def)

section \<open>Whole streams\<close>

lemma body_lines_exist:
  "\<exists>ls tail. s = concat ls @ tail \<and> (\<forall>l\<in>set ls. is_line l) \<and> nl \<notin> set tail"
proof (induction "length s" arbitrary: s rule: less_induct)
  case less
  show ?case
  proof (cases "nl \<in> set s")
    case False
    then show ?thesis
      by (intro exI [of _ "[]"] exI [of _ s]) simp
  next
    case True
    then obtain l0 rest where s: "s = l0 @ nl # rest" and l0: "nl \<notin> set l0"
      by (auto dest: split_list_first)
    then have "length rest < length s" by simp
    from less [OF this] obtain ls tail where
      r: "rest = concat ls @ tail" and ls: "\<forall>l\<in>set ls. is_line l" and t: "nl \<notin> set tail"
      by blast
    have "is_line (l0 @ [nl])" using l0 by (simp add: is_line_def)
    with s r ls t show ?thesis
      by (intro exI [of _ "(l0 @ [nl]) # ls"] exI [of _ tail]) simp
  qed
qed

lemma loop_frames_prefix:
  assumes "frames_ok um ls" and "bytes r = concat ls @ tail"
  shows "\<exists>new prev'.
     stream_loop um r out prev cs n =
       stream_loop um (r\<lparr>bytes := tail\<rparr>) (last (out # new)) prev' (cs @ new) (n + length ls)
     \<and> (\<forall>d\<in>set new. Choices d \<noteq> [])
     \<and> map (\<lambda>d. Text (Choices d ! 0)) new = cumulative (carried out prev) (fragments um ls)
     \<and> carried (last (out # new)) prev' = carried out prev @ concat (fragments um ls)"
  using assms
proof (induction ls arbitrary: r out prev cs n)
  case Nil
  then have "r\<lparr>bytes := tail\<rparr> = r" by simp
  then show ?case
    by (intro exI [of _ "[]"] exI [of _ prev]) (simp add: fragments_def)
next
  case (Cons l ls)
  from Cons.prems(1) have line: "is_line l" and rest_ok: "frames_ok um ls"
    by (simp_all add: frames_ok_def)
  from Cons.prems(2) have b: "bytes r = l @ (concat ls @ tail)" by simp
  let ?r = "r\<lparr>bytes := concat ls @ tail\<rparr>"
  have rb: "bytes ?r = concat ls @ tail" and rr: "?r\<lparr>bytes := tail\<rparr> = r\<lparr>bytes := tail\<rparr>"
    by simp_all
  show ?case
  proof (cases "data_line l")
    case False
    from Cons.IH [OF rest_ok rb, of out prev cs "Suc n"]
    obtain new prev' where
      "stream_loop um ?r out prev cs (Suc n) =
         stream_loop um (?r\<lparr>bytes := tail\<rparr>) (last (out # new)) prev' (cs @ new) (Suc n + length ls)"
      and "\<forall>d\<in>set new. Choices d \<noteq> []"
      and "map (\<lambda>d. Text (Choices d ! 0)) new = cumulative (carried out prev) (fragments um ls)"
      and "carried (last (out # new)) prev' = carried out prev @ concat (fragments um ls)"
      by blast
    with False show ?thesis
      unfolding loop_skip [OF line b False] rr
      by (intro exI [of _ new] exI [of _ prev']) (simp add: fragments_def)
  next
    case True
    with Cons.prems(1) have ns: "\<not> sentinel l" and wf: "well_formed um (payload l)"
      by (simp_all add: frames_ok_def sentinel_def)
    obtain d' where um: "um (payload l) out = (d', None)" and ne: "Choices d' \<noteq> []"
      and tx: "Text (Choices d' ! 0) = fragment um (payload l)"
      using wf unfolding well_formed_def by (metis prod.collapse)
    let ?c = "carried out prev"
    let ?o = "merge_text ?c d'"
    have o: "Choices ?o \<noteq> []" "Text (Choices ?o ! 0) = ?c @ fragment um (payload l)"
      using merge_text_first [OF ne, of ?c] tx by simp_all
    have step: "stream_loop um r out prev cs n = stream_loop um ?r ?o ?c (cs @ [?o]) (Suc n)"
      unfolding loop_frame [OF line b True ns] um by simp
    from Cons.IH [OF rest_ok rb, of ?o ?c "cs @ [?o]" "Suc n"]
    obtain new prev' where
      1: "stream_loop um ?r ?o ?c (cs @ [?o]) (Suc n) =
         stream_loop um (?r\<lparr>bytes := tail\<rparr>) (last (?o # new)) prev' ((cs @ [?o]) @ new) (Suc n + length ls)"
      and 2: "\<forall>d\<in>set new. Choices d \<noteq> []"
      and 3: "map (\<lambda>d. Text (Choices d ! 0)) new = cumulative (carried ?o ?c) (fragments um ls)"
      and 4: "carried (last (?o # new)) prev' = carried ?o ?c @ concat (fragments um ls)"
      by blast
    have c: "carried ?o ?c = ?c @ fragment um (payload l)"
      using o by (simp add: carried_first)
    have fr: "fragments um (l # ls) = fragment um (payload l) # fragments um ls"
      using True by (simp add: fragments_def)
    show ?thesis
      unfolding step 1 rr
      using 2 3 4 o c fr
      by (intro exI [of _ "?o # new"] exI [of _ prev']) simp
  qed
qed

lemma length_cumulative: "length (cumulative acc ts) = length ts"
  by (induction ts arbitrary: acc) auto

lemma cumulative_nth:
  "k < length ts \<Longrightarrow> cumulative acc ts ! k = acc @ concat (take (Suc k) ts)"
proof (induction ts arbitrary: acc k)
  case Nil
  then show ?case by simp
next
  case (Cons t ts)
  then show ?case by (cases k) auto
qed




lemma no_sentinel_error:
  assumes "\<forall>l\<in>set ls. is_line l \<and> \<not> sentinel l" and "nl \<notin> set tail"
    and "bytes r = concat ls @ tail"
  shows "ret_err (stream_loop um r out prev cs n) = Some (readErr r)
       \<or> (\<exists>m. ret_err (stream_loop um r out prev cs n)
                = Some (Errorf (''invalid json stream data: '' @ m)))"
  using assms
proof (induction ls arbitrary: r out prev cs n)
  case Nil
  then show ?case by (simp add: loop_end)
next
  case (Cons l ls)
  from Cons.prems have line: "is_line l" and ns: "\<not> sentinel l"
    and rest: "\<forall>l\<in>set ls. is_line l \<and> \<not> sentinel l"
    and b: "bytes r = l @ (concat ls @ tail)"
    by simp_all
  let ?r = "r\<lparr>bytes := concat ls @ tail\<rparr>"
  have rb: "bytes ?r = concat ls @ tail" and re: "readErr ?r = readErr r" by simp_all
  note IH = Cons.IH [OF rest Cons.prems(2) rb, unfolded re]
  show ?case
  proof (cases "data_line l")
    case False
    show ?thesis
      unfolding loop_skip [OF line b False] by (rule IH)
  next
    case True
    show ?thesis
    proof (cases "um (payload l) out")
      case (Pair d' e)
      show ?thesis
      proof (cases e)
        case None
        with Pair show ?thesis
          unfolding loop_frame [OF line b True ns] using IH by simp
      next
        case (Some x)
        with Pair show ?thesis
          unfolding loop_frame [OF line b True ns] by simp
      qed
    qed
  qed
qed

lemma success_at_sentinel:
  assumes "\<forall>l\<in>set ls. is_line l" and "nl \<notin> set tail"
    and "bytes r = concat ls @ tail"
    and "ret_err (stream_loop um r out prev cs n) = None"
  shows "\<exists>pre s post. ls = pre @ s # post \<and> (\<forall>l\<in>set pre. \<not> sentinel l) \<and> sentinel s
       \<and> lines_read (stream_loop um r out prev cs n) = Suc (n + length pre)"
  using assms
proof (induction ls arbitrary: r out prev cs n)
  case Nil
  then show ?case by (simp add: loop_end)
next
  case (Cons l ls)
  from Cons.prems have line: "is_line l" and rest: "\<forall>l\<in>set ls. is_line l"
    and b: "bytes r = l @ (concat ls @ tail)"
    by simp_all
  let ?r = "r\<lparr>bytes := concat ls @ tail\<rparr>"
  have rb: "bytes ?r = concat ls @ tail" by simp
  note IH = Cons.IH [OF rest Cons.prems(2) rb]
  have ext: "\<exists>pre s post. l # ls = pre @ s # post \<and> (\<forall>l\<in>set pre. \<not> sentinel l) \<and> sentinel s
       \<and> k = Suc (n + length pre)"
    if "\<exists>pre s post. ls = pre @ s # post \<and> (\<forall>l\<in>set pre. \<not> sentinel l) \<and> sentinel s
       \<and> k = Suc (Suc n + length pre)" and "\<not> sentinel l" for k
  proof -
    from that obtain pre s post where "ls = pre @ s # post" "\<forall>l\<in>set pre. \<not> sentinel l"
      "sentinel s" "k = Suc (Suc n + length pre)" by blast
    with that(2) show ?thesis
      by (intro exI [of _ "l # pre"] exI [of _ s] exI [of _ post]) simp
  qed
  show ?case
  proof (cases "sentinel l")
    case True
    then show ?thesis
      unfolding loop_done [OF line b True]
      by (intro exI [of _ "[]"] exI [of _ l] exI [of _ ls]) simp
  next
    case ns: False
    show ?thesis
    proof (cases "data_line l")
      case False
      from Cons.prems(4) show ?thesis
        unfolding loop_skip [OF line b False] by (intro ext IH ns)
    next
      case True
      show ?thesis
      proof (cases "um (payload l) out")
        case (Pair d' e)
        show ?thesis
        proof (cases e)
          case None
          with Pair Cons.prems(4) show ?thesis
            unfolding loop_frame [OF line b True ns] by (simp del: ex_simps) (intro ext IH ns)
        next
          case (Some x)
          with Pair Cons.prems(4) show ?thesis
            unfolding loop_frame [OF line b True ns] by simp
        qed
      qed
    qed
  qed
qed

lemma loop_counter_lines:
  assumes "\<forall>l\<in>set ls. is_line l" and "nl \<notin> set tail" and "bytes r = concat ls @ tail"
  shows "outcome (stream_loop um r out prev cs n) = outcome (stream_loop um r out prev cs m)"
  using assms
proof (induction ls arbitrary: r out prev cs n m)
  case Nil
  then show ?case by (simp add: loop_end outcome_def)
next
  case (Cons l ls)
  from Cons.prems have line: "is_line l" and rest: "\<forall>l\<in>set ls. is_line l"
    and b: "bytes r = l @ (concat ls @ tail)"
    by simp_all
  let ?r = "r\<lparr>bytes := concat ls @ tail\<rparr>"
  have rb: "bytes ?r = concat ls @ tail" by simp
  note IH = Cons.IH [OF rest Cons.prems(2) rb]
  show ?case
  proof (cases "data_line l")
    case False
    show ?thesis
      unfolding loop_skip [OF line b False] by (rule IH)
  next
    case True
    show ?thesis
    proof (cases "sentinel l")
      case True
      show ?thesis
        unfolding loop_done [OF line b True] by (simp add: outcome_def)
    next
      case False
      show ?thesis
      proof (cases "um (payload l) out")
        case (Pair d' e)
        show ?thesis
        proof (cases e)
          case None
          with Pair show ?thesis
            unfolding loop_frame [OF line b True False] by (simp add: IH)
        next
          case (Some x)
          with Pair show ?thesis
            unfolding loop_frame [OF line b True False] by (simp add: outcome_def)
        qed
      qed
    qed
  qed
qed

lemma loop_counter:
  "outcome (stream_loop um r out prev cs n) = outcome (stream_loop um r out prev cs m)"
proof -
  obtain ls tail where "bytes r = concat ls @ tail" "\<forall>l\<in>set ls. is_line l" "nl \<notin> set tail"
    using body_lines_exist [of "bytes r"] by blast
  then show ?thesis
    by (intro loop_counter_lines [of ls tail])
qed

lemma skip_in_stream:
  assumes "\<forall>x\<in>set pre. is_line x" and "is_line l" and "\<not> data_line l"
  shows "outcome (stream_loop um (r\<lparr>bytes := concat pre @ l @ rest\<rparr>) out prev cs n)
       = outcome (stream_loop um (r\<lparr>bytes := concat pre @ rest\<rparr>) out prev cs n)"
  using assms(1)
proof (induction pre arbitrary: out prev cs n)
  case Nil
  have "bytes (r\<lparr>bytes := l @ rest\<rparr>) = l @ rest" by simp
  from loop_skip [OF assms(2) this assms(3)] show ?case
    by (simp add: loop_counter [of um _ out prev cs "Suc n" n])
next
  case (Cons p pre)
  then have line: "is_line p" and rest: "\<forall>x\<in>set pre. is_line x"
    by simp_all
  let ?r1 = "r\<lparr>bytes := concat (p # pre) @ l @ rest\<rparr>"
  let ?r2 = "r\<lparr>bytes := concat (p # pre) @ rest\<rparr>"
  have b1: "bytes ?r1 = p @ (concat pre @ l @ rest)" and b2: "bytes ?r2 = p @ (concat pre @ rest)"
    by simp_all
  have u1: "?r1\<lparr>bytes := concat pre @ l @ rest\<rparr> = r\<lparr>bytes := concat pre @ l @ rest\<rparr>"
    and u2: "?r2\<lparr>bytes := concat pre @ rest\<rparr> = r\<lparr>bytes := concat pre @ rest\<rparr>"
    by simp_all
  note IH = Cons.IH [OF rest]
  show ?case
  proof (cases "data_line p")
    case False
    show ?thesis
      unfolding loop_skip [OF line b1 False] loop_skip [OF line b2 False] u1 u2 by (rule IH)
  next
    case True
    show ?thesis
    proof (cases "sentinel p")
      case True
      show ?thesis
        unfolding loop_done [OF line b1 True] loop_done [OF line b2 True] by simp
    next
      case False
      show ?thesis
      proof (cases "um (payload p) out")
        case (Pair d' e)
        show ?thesis
        proof (cases e)
          case None
          with Pair show ?thesis
            unfolding loop_frame [OF line b1 True False] loop_frame [OF line b2 True False] u1 u2
            by (simp add: IH)
        next
          case (Some x)
          with Pair show ?thesis
            unfolding loop_frame [OF line b1 True False] loop_frame [OF line b2 True False]
            by (simp add: outcome_def)
        qed
      qed
    qed
  qed
qed

lemma frames_ok_accepted: "frames_ok um ls \<Longrightarrow> accepted um ls"
  by (auto simp: frames_ok_def accepted_def well_formed_def)

lemma loop_accepted_prefix:
  assumes "accepted um ls" and "bytes r = concat ls @ tail"
  shows "\<exists>new prev'.
     stream_loop um r out prev cs n =
       stream_loop um (r\<lparr>bytes := tail\<rparr>) (last (out # new)) prev' (cs @ new) (n + length ls)
     \<and> length new = length (filter data_line ls)"
  using assms
proof (induction ls arbitrary: r out prev cs n)
  case Nil
  then have "r\<lparr>bytes := tail\<rparr> = r" by simp
  then show ?case
    by (intro exI [of _ "[]"] exI [of _ prev]) simp
next
  case (Cons l ls)
  from Cons.prems(1) have line: "is_line l" and rest_ok: "accepted um ls"
    by (simp_all add: accepted_def)
  from Cons.prems(2) have b: "bytes r = l @ (concat ls @ tail)" by simp
  let ?r = "r\<lparr>bytes := concat ls @ tail\<rparr>"
  have rb: "bytes ?r = concat ls @ tail" and rr: "?r\<lparr>bytes := tail\<rparr> = r\<lparr>bytes := tail\<rparr>"
    by simp_all
  show ?case
  proof (cases "data_line l")
    case False
    from Cons.IH [OF rest_ok rb, of out prev cs "Suc n"]
    obtain new prev' where
      "stream_loop um ?r out prev cs (Suc n) =
         stream_loop um (?r\<lparr>bytes := tail\<rparr>) (last (out # new)) prev' (cs @ new) (Suc n + length ls)"
      and "length new = length (filter data_line ls)"
      by blast
    with False show ?thesis
      unfolding loop_skip [OF line b False] rr
      by (intro exI [of _ new] exI [of _ prev']) simp
  next
    case True
    with Cons.prems(1) have ns: "\<not> sentinel l" and dec: "\<forall>d. snd (um (payload l) d) = None"
      by (simp_all add: accepted_def sentinel_def)
    obtain d' where um: "um (payload l) out = (d', None)"
      using dec by (metis prod.collapse)
    let ?c = "carried out prev"
    let ?o = "merge_text ?c d'"
    have step: "stream_loop um r out prev cs n = stream_loop um ?r ?o ?c (cs @ [?o]) (Suc n)"
      unfolding loop_frame [OF line b True ns] um by simp
    from Cons.IH [OF rest_ok rb, of ?o ?c "cs @ [?o]" "Suc n"]
    obtain new prev' where
      1: "stream_loop um ?r ?o ?c (cs @ [?o]) (Suc n) =
         stream_loop um (?r\<lparr>bytes := tail\<rparr>) (last (?o # new)) prev' ((cs @ [?o]) @ new) (Suc n + length ls)"
      and 2: "length new = length (filter data_line ls)"
      by blast
    show ?thesis
      unfolding step 1 rr
      using 2 True
      by (intro exI [of _ "?o # new"] exI [of _ prev']) simp
  qed
qed

lemma frames_prefix_length:
  "map (\<lambda>d. Text (Choices d ! 0)) new = cumulative acc (fragments um ls) \<Longrightarrow>
   length new = length (filter data_line ls)"
proof -
  assume "map (\<lambda>d. Text (Choices d ! 0)) new = cumulative acc (fragments um ls)"
  then have "length new = length (fragments um ls)"
    by (metis length_cumulative length_map)
  then show ?thesis by (simp add: fragments_def)
qed

lemma in_range: "200 \<le> c \<Longrightarrow> c < 400 \<Longrightarrow> \<not> (c < StatusOK \<or> StatusBadRequest \<le> c)"
  by (simp add: StatusOK_def StatusBadRequest_def)

lemma out_of_range: "c < 200 \<or> 400 \<le> c \<Longrightarrow> c < StatusOK \<or> StatusBadRequest \<le> c"
  by (simp add: StatusOK_def StatusBadRequest_def)

section \<open>The wire format\<close>

text \<open>
  The lines of an event stream as the spec writes them, \<^verbatim>\<open>data: \<close> followed by a
  payload and a newline, are data lines with that payload, when the payload holds no
  newline and begins and ends with an ASCII byte that is not white space (as a JSON
  object does).
\<close>

lemma trimLeftSpace_keep:
  "s \<noteq> [] \<Longrightarrow> ascii_nonspace (hd s) \<Longrightarrow> trimLeftSpace s = s"
  by (subst trimLeftSpace.simps) (simp add: ascii_nonspace_def hd_conv_nth)

lemma trimRightSpace_keep:
  "s \<noteq> [] \<Longrightarrow> ascii_nonspace (last s) \<Longrightarrow> trimRightSpace s = s"
  by (subst trimRightSpace.simps) (simp add: ascii_nonspace_def)

lemma trimRightSpace_nl: "trimRightSpace (s @ [nl]) = trimRightSpace s"
  by (subst trimRightSpace.simps) (simp add: RuneSelf_def IsSpace_def)

lemma TrimSpace_keep:
  "s \<noteq> [] \<Longrightarrow> ascii_nonspace (hd s) \<Longrightarrow> ascii_nonspace (last s) \<Longrightarrow> TrimSpace s = s"
  by (simp add: TrimSpace_def trimLeftSpace_keep trimRightSpace_keep)

lemma wire_frame:
  assumes "p \<noteq> []" and "ascii_nonspace (hd p)" and "ascii_nonspace (last p)"
    and "nl \<notin> set p"
  shows "is_line (dataPrefix @ p @ [nl])" and "data_line (dataPrefix @ p @ [nl])"
    and "payload (dataPrefix @ p @ [nl]) = p"
proof -
  have d: "ascii_nonspace (CHR ''d'')"
    by (simp add: ascii_nonspace_def RuneSelf_def IsSpace_def)
  have "trimLeftSpace (dataPrefix @ p @ [nl]) = dataPrefix @ p @ [nl]"
    using d by (intro trimLeftSpace_keep) (simp_all add: dataPrefix_def)
  moreover have "trimRightSpace ((dataPrefix @ p) @ [nl]) = dataPrefix @ p"
    unfolding trimRightSpace_nl using assms(1,3) by (intro trimRightSpace_keep) simp_all
  ultimately have t: "TrimSpace (dataPrefix @ p @ [nl]) = dataPrefix @ p"
    by (simp add: TrimSpace_def)
  show "is_line (dataPrefix @ p @ [nl])"
    using assms(4) by (simp add: is_line_def dataPrefix_def butlast_append)
  show "data_line (dataPrefix @ p @ [nl])"
    by (simp add: data_line_def t HasPrefix_def)
  show "payload (dataPrefix @ p @ [nl]) = p"
    using assms(1,2,3) by (simp add: payload_def t HasPrefix_def TrimPrefix_def TrimSpace_keep)
qed

section \<open>Facts about the concrete streams\<close>

lemma hello_line_frame:
  \<open>is_line hello_line\<close> \<open>data_line hello_line\<close>
  \<open>payload hello_line = ''{"choices":[{"text":"Hello"}]}''\<close>
  by code_simp+

lemma world_line_frame:
  \<open>is_line world_line\<close> \<open>data_line world_line\<close>
  \<open>payload world_line = ''{"choices":[{"text":", world"}]}''\<close>
  by code_simp+



lemma cut_line_frame:
  \<open>is_line cut_line\<close> \<open>data_line cut_line\<close>
  \<open>payload cut_line = ''{"choices":[{"text":"!"}]''\<close>
  by code_simp+

lemma scenario_well_formed:
  \<open>well_formed scenario_Unmarshal ''{"choices":[{"text":"Hello"}]}''\<close>
  \<open>well_formed scenario_Unmarshal ''{"choices":[{"text":", world"}]}''\<close>
  by (simp_all add: well_formed_def fragment_def scenario_Unmarshal_def)



lemma empty_object_line_frame:
  "is_line empty_object_line" "data_line empty_object_line"
  "payload empty_object_line = ''{}''"
  by code_simp+

lemma scenario_accepted: "accepted scenario_Unmarshal [empty_object_line]"
  by (simp add: accepted_def empty_object_line_frame scenario_Unmarshal_def HasPrefix_def
      doneSequence_def)


lemma scenario_frames_ok1: "frames_ok scenario_Unmarshal [hello_line]"
  by (simp add: frames_ok_def hello_line_frame scenario_well_formed HasPrefix_def
      doneSequence_def)


lemma Itoa_scenario: "Itoa 429 = ''429''" "Itoa 500 = ''500''" "Itoa 199 = ''199''"
  by code_simp+

section \<open>The properties\<close>




text \<open>
  C2. The body holds lines that are not sentinels and whose data frames decode, then a
  data frame whose payload fails to decode whatever the destination holds. The call
  stops at that frame and returns an error that wraps the decoder's; \<^verbatim>\<open>onData\<close> has
  been called once for each frame before it and for nothing else (with the growing text
  of C3 as long as the frames carry a first-choice text), and the carried text is not
  merged. The value returned is the value accumulated from the frames before, as the
  decoder left it when it failed: \<^verbatim>\<open>json.Unmarshal\<close> is handed \<^verbatim>\<open>&output\<close> itself, and
  what it wrote there before it found the error is returned. The frames before are all
  the returned value reflects only for a decoder that leaves its destination as it was
  on failure.
\<close>

theorem malformed_frame_aborts:
  assumes "200 \<le> c" and "c < 400" and "frames_ok um ls1" and "accepted um ls2"
    and "is_line bad" and "data_line bad" and "\<not> HasPrefix (payload bad) doneSequence"
    and "\<forall>d. snd (um (payload bad) d) \<noteq> None"
  shows "let r = sendStreamRequest de um
             (Inr \<lparr>StatusCode = c,
                   Body = \<lparr>bytes = concat (ls1 @ ls2) @ bad @ rest, readErr = e\<rparr>\<rparr>);
             before = last (\<lparr>Choices = []\<rparr> # onData_calls r)
         in ret_err r = Some (Errorf (''invalid json stream data: ''
                                @ error_message (the (snd (um (payload bad) before)))))
            \<and> lines_read r = Suc (length (ls1 @ ls2))
            \<and> length (onData_calls r) = length (filter data_line (ls1 @ ls2))
            \<and> (\<forall>k<length (filter data_line ls1). Choices (onData_calls r ! k) \<noteq> [] \<and>
                 Text (Choices (onData_calls r ! k) ! 0)
                   = concat (take (Suc k) (fragments um ls1)))
            \<and> ret_output r = fst (um (payload bad) before)
            \<and> (fst (um (payload bad) before) = before \<longrightarrow> ret_output r = before)"
proof -
  let ?b = "\<lparr>bytes = concat (ls1 @ ls2) @ bad @ rest, readErr = e\<rparr>"
  have run: "sendStreamRequest de um (Inr \<lparr>StatusCode = c, Body = ?b\<rparr>) =
      stream_loop um ?b \<lparr>Choices = []\<rparr> [] [] 0"
    using in_range [OF assms(1,2)] by (simp add: sendStreamRequest_def NewReader_def)
  have "bytes ?b = concat ls1 @ (concat ls2 @ bad @ rest)" by simp
  from loop_frames_prefix [OF assms(3) this, of "\<lparr>Choices = []\<rparr>" "[]" "[]" 0]
  obtain new1 prev1 where
    1: "stream_loop um ?b \<lparr>Choices = []\<rparr> [] [] 0 =
       stream_loop um (?b\<lparr>bytes := concat ls2 @ bad @ rest\<rparr>) (last (\<lparr>Choices = []\<rparr> # new1))
         prev1 new1 (length ls1)"
    and 2: "\<forall>d\<in>set new1. Choices d \<noteq> []"
    and 3: "map (\<lambda>d. Text (Choices d ! 0)) new1 = cumulative [] (fragments um ls1)"
    by (auto simp: carried_def)
  from 3 have len1: "length new1 = length (filter data_line ls1)"
    by (rule frames_prefix_length)
  let ?r1 = "?b\<lparr>bytes := concat ls2 @ bad @ rest\<rparr>"
  have "bytes ?r1 = concat ls2 @ (bad @ rest)" by simp
  from loop_accepted_prefix [OF assms(4) this,
      of "last (\<lparr>Choices = []\<rparr> # new1)" prev1 new1 "length ls1"]
  obtain new2 prev2 where
    4: "stream_loop um ?r1 (last (\<lparr>Choices = []\<rparr> # new1)) prev1 new1 (length ls1) =
       stream_loop um (?r1\<lparr>bytes := bad @ rest\<rparr>)
         (last (last (\<lparr>Choices = []\<rparr> # new1) # new2)) prev2 (new1 @ new2)
         (length ls1 + length ls2)"
    and len2: "length new2 = length (filter data_line ls2)"
    by blast
  have bf: "last (last (\<lparr>Choices = []\<rparr> # new1) # new2) = last (\<lparr>Choices = []\<rparr> # new1 @ new2)"
    by simp
  let ?before = "last (\<lparr>Choices = []\<rparr> # new1 @ new2)"
  have ns: "\<not> sentinel bad" using assms(7) by (simp add: sentinel_def)
  obtain d' x where um: "um (payload bad) ?before = (d', Some x)"
    using assms(8) by (metis not_None_eq prod.collapse)
  have "bytes (?r1\<lparr>bytes := bad @ rest\<rparr>) = bad @ rest" by simp
  from loop_frame [OF assms(5) this assms(6) ns, of um ?before prev2 "new1 @ new2"
      "length ls1 + length ls2"] um
  have 5: "stream_loop um (?r1\<lparr>bytes := bad @ rest\<rparr>) ?before prev2 (new1 @ new2)
        (length ls1 + length ls2) =
      \<lparr>ret_output = d',
       ret_err = Some (Errorf (''invalid json stream data: '' @ error_message x)),
       onData_calls = new1 @ new2, lines_read = Suc (length ls1 + length ls2)\<rparr>"
    by simp
  have res: "sendStreamRequest de um (Inr \<lparr>StatusCode = c, Body = ?b\<rparr>) =
      \<lparr>ret_output = d',
       ret_err = Some (Errorf (''invalid json stream data: '' @ error_message x)),
       onData_calls = new1 @ new2, lines_read = Suc (length ls1 + length ls2)\<rparr>"
    unfolding run 1 4 bf 5 ..
  have nth: "Choices ((new1 @ new2) ! k) \<noteq> [] \<and>
      Text (Choices ((new1 @ new2) ! k) ! 0) = concat (take (Suc k) (fragments um ls1))"
    if "k < length (filter data_line ls1)" for k
  proof -
    from that len1 have k: "k < length new1" by simp
    then have eq: "(new1 @ new2) ! k = new1 ! k" by (simp add: nth_append)
    have "Text (Choices (new1 ! k) ! 0) = map (\<lambda>d. Text (Choices d ! 0)) new1 ! k"
      using k by simp
    also have "\<dots> = concat (take (Suc k) (fragments um ls1))"
      using that by (simp add: 3 cumulative_nth fragments_def)
    finally show ?thesis
      using 2 k eq by simp
  qed
  show ?thesis
    unfolding res Let_def
    using len1 len2 nth um by simp
qed

theorem malformed_frame_aborts_witness:
  "lines_read (sendStreamRequest scenario_DecodeError scenario_Unmarshal
      (Inr \<lparr>StatusCode = 200,
            Body = \<lparr>bytes = concat ([hello_line] @ [empty_object_line]) @ cut_line @ done_line,
                    readErr = EOF\<rparr>\<rparr>)) = 3
   \<and> length (onData_calls (sendStreamRequest scenario_DecodeError scenario_Unmarshal
      (Inr \<lparr>StatusCode = 200,
            Body = \<lparr>bytes = concat ([hello_line] @ [empty_object_line]) @ cut_line @ done_line,
                    readErr = EOF\<rparr>\<rparr>))) = 2"
proof -
  have nd: "\<not> HasPrefix (payload cut_line) doneSequence"
    by (simp add: cut_line_frame HasPrefix_def doneSequence_def)
  have bad: "\<forall>d. snd (scenario_Unmarshal (payload cut_line) d) \<noteq> None"
    by (simp add: cut_line_frame scenario_Unmarshal_def)
  from malformed_frame_aborts [OF _ _ scenario_frames_ok1 scenario_accepted
      cut_line_frame(1,2) nd bad, of 200 scenario_DecodeError done_line EOF]
  show ?thesis
    by (simp add: Let_def hello_line_frame empty_object_line_frame)
qed

text \<open>
  C2 as the spec states it does not hold. After the frame \<^verbatim>\<open>Hello\<close>, a frame cut off
  before its closing brace fails to decode, and the value returned has the text of the
  cut frame as its first choice, not the text delivered for the frame before it.
\<close>

theorem malformed_frame_merged:
  "ret_output (sendStreamRequest scenario_DecodeError scenario_Unmarshal
      (Inr \<lparr>StatusCode = 200,
            Body = \<lparr>bytes = hello_line @ cut_line @ done_line, readErr = EOF\<rparr>\<rparr>))
     = \<lparr>Choices = [\<lparr>Text = ''!''\<rparr>]\<rparr>
   \<and> onData_calls (sendStreamRequest scenario_DecodeError scenario_Unmarshal
      (Inr \<lparr>StatusCode = 200,
            Body = \<lparr>bytes = hello_line @ cut_line @ done_line, readErr = EOF\<rparr>\<rparr>))
     = [\<lparr>Choices = [\<lparr>Text = ''Hello''\<rparr>]\<rparr>]
   \<and> ret_output (sendStreamRequest scenario_DecodeError scenario_Unmarshal
      (Inr \<lparr>StatusCode = 200,
            Body = \<lparr>bytes = hello_line @ cut_line @ done_line, readErr = EOF\<rparr>\<rparr>))
     \<noteq> \<lparr>Choices = [\<lparr>Text = ''Hello''\<rparr>]\<rparr>
   \<and> ret_err (sendStreamRequest scenario_DecodeError scenario_Unmarshal
      (Inr \<lparr>StatusCode = 200,
            Body = \<lparr>bytes = hello_line @ cut_line @ done_line, readErr = EOF\<rparr>\<rparr>))
     = Some (Errorf ''invalid json stream data: expected comma after object element'')"
  by code_simp




text \<open>
  C4. Every body is a sequence of lines followed by a last piece without a newline
  (empty when the body ends after a newline). When none of the lines is a sentinel, the
  call returns an error, however many frames were decoded and passed to \<^verbatim>\<open>onData\<close>
  before the end: the error of the read that found the end of the body (\<open>EOF\<close> for a
  clean end), or the error of a frame that failed to decode. A last piece is never
  examined, so a sentinel that is not followed by a newline does not end the stream.
\<close>

theorem stream_without_sentinel:
  assumes "200 \<le> c" and "c < 400"
    and "\<forall>l\<in>set ls. is_line l \<and> \<not> sentinel l" and "nl \<notin> set tail"
  shows "let r = sendStreamRequest de um
             (Inr \<lparr>StatusCode = c, Body = \<lparr>bytes = concat ls @ tail, readErr = e\<rparr>\<rparr>)
         in ret_err r \<noteq> None \<and>
            (ret_err r = Some e \<or>
             (\<exists>m. ret_err r = Some (Errorf (''invalid json stream data: '' @ m))))"
proof -
  let ?b = "\<lparr>bytes = concat ls @ tail, readErr = e\<rparr>"
  have run: "sendStreamRequest de um (Inr \<lparr>StatusCode = c, Body = ?b\<rparr>) =
      stream_loop um ?b \<lparr>Choices = []\<rparr> [] [] 0"
    using in_range [OF assms(1,2)] by (simp add: sendStreamRequest_def NewReader_def)
  have "bytes ?b = concat ls @ tail" by simp
  from no_sentinel_error [OF assms(3,4) this, of um "\<lparr>Choices = []\<rparr>" "[]" "[]" 0]
  show ?thesis
    unfolding run Let_def by auto
qed

theorem stream_without_sentinel_witness:
  "ret_err (sendStreamRequest scenario_DecodeError scenario_Unmarshal
      (Inr \<lparr>StatusCode = 200,
            Body = \<lparr>bytes = concat [hello_line, world_line] @ ''data: [DONE]'',
                    readErr = EOF\<rparr>\<rparr>)) \<noteq> None"
proof -
  have "\<not> sentinel hello_line" "\<not> sentinel world_line"
    by code_simp+
  then have "\<forall>l\<in>set [hello_line, world_line]. is_line l \<and> \<not> sentinel l"
    by (simp add: hello_line_frame world_line_frame)
  moreover have "nl \<notin> set ''data: [DONE]''"
    by simp
  ultimately show ?thesis
    using stream_without_sentinel [of 200 "[hello_line, world_line]" "''data: [DONE]''"
        scenario_DecodeError scenario_Unmarshal EOF]
    by (simp add: Let_def)
qed

text \<open>
  C5. Under a status below 200 or from 400 on, both dispatch functions return an error
  and never nil. When the error decoder reports no error and the decoded envelope has
  its nested error object, the message of the returned error is the status code followed
  by the exact message of that object; when decoding fails or the nested object is
  absent, it is the status code alone.
\<close>

theorem status_error_message:
  assumes "c < 200 \<or> 400 \<le> c"
  shows "let res = Inr \<lparr>StatusCode = c, Body = b\<rparr>;
             expected =
               (case de b of
                  (errRes, None) \<Rightarrow>
                    (case Error errRes of
                       Some apiErr \<Rightarrow>
                         Errorf (''error, status code: '' @ Itoa c @ '', message: ''
                                  @ Message apiErr)
                     | None \<Rightarrow> Errorf (''error, status code: '' @ Itoa c))
                | (errRes, Some e) \<Rightarrow> Errorf (''error, status code: '' @ Itoa c))
         in snd (sendRequest de dv res v) = Some expected
            \<and> ret_err (sendStreamRequest de um res) = Some expected"
  using out_of_range [OF assms]
  by (auto simp: sendRequest_def sendStreamRequest_def Let_def split: prod.splits option.splits)

theorem status_error_message_witness:
  \<open>snd (sendRequest scenario_DecodeError (\<lambda>b d. (d, None))
          (Inr \<lparr>StatusCode = 429,
                Body = \<lparr>bytes = ''{"error":{"message":"rate limited"}}'', readErr = EOF\<rparr>\<rparr>)
          (None :: unit option))
     = Some (Errorf ''error, status code: 429, message: rate limited'')
   \<and> ret_err (sendStreamRequest scenario_DecodeError scenario_Unmarshal
          (Inr \<lparr>StatusCode = 500, Body = \<lparr>bytes = [], readErr = EOF\<rparr>\<rparr>))
     = Some (Errorf ''error, status code: 500'')\<close>
  using status_error_message [of 429 \<open>\<lparr>bytes = ''{"error":{"message":"rate limited"}}'', readErr = EOF\<rparr>\<close>
      scenario_DecodeError "\<lambda>b d. (d, None)" "None :: unit option" scenario_Unmarshal]
    status_error_message [of 500 "\<lparr>bytes = [], readErr = EOF\<rparr>"
      scenario_DecodeError "\<lambda>b d. (d, None)" "None :: unit option" scenario_Unmarshal]
  by (simp add: scenario_DecodeError_def Itoa_scenario Let_def)

text \<open>
  C6. \<^verbatim>\<open>sendRequest\<close> succeeds on a call without a destination exactly when the status
  code is at least 200 and below 400. For a status in that range the call is the decoding
  of the body into the destination, and the error decoder plays no part; for every other
  status, those below 200 included, the call returns the error built by error decoding
  and leaves the destination alone. \<^verbatim>\<open>sendStreamRequest\<close> draws the same line: the
  loop runs for a status in the range, and error decoding otherwise.
\<close>

theorem status_classification:
  "let res = Inr \<lparr>StatusCode = c, Body = b\<rparr>;
       failure =
         Errorf (''error, status code: '' @ Itoa c @
           (case de b of
              (errRes, None) \<Rightarrow>
                (case Error errRes of
                   Some apiErr \<Rightarrow> '', message: '' @ Message apiErr
                 | None \<Rightarrow> [])
            | (errRes, Some e) \<Rightarrow> []))
   in (snd (sendRequest de dv res None) = None \<longleftrightarrow> 200 \<le> c \<and> c < 400)
      \<and> sendRequest de dv res v =
          (if 200 \<le> c \<and> c < 400
           then (case v of
                   None \<Rightarrow> (None, None)
                 | Some d \<Rightarrow> (Some (fst (dv b d)), snd (dv b d)))
           else (v, Some failure))
      \<and> sendStreamRequest de um res =
          (if 200 \<le> c \<and> c < 400
           then stream_loop um (NewReader b) \<lparr>Choices = []\<rparr> [] [] 0
           else \<lparr>ret_output = \<lparr>Choices = []\<rparr>, ret_err = Some failure,
                 onData_calls = [], lines_read = 0\<rparr>)"
  by (auto simp: sendRequest_def sendStreamRequest_def StatusOK_def StatusBadRequest_def
      Let_def split: prod.splits option.splits)

theorem status_classification_witness:
  "snd (sendRequest scenario_DecodeError (\<lambda>b d. (d, None))
          (Inr \<lparr>StatusCode = 199, Body = \<lparr>bytes = [], readErr = EOF\<rparr>\<rparr>)
          (None :: unit option)) = Some (Errorf ''error, status code: 199'')
   \<and> sendRequest scenario_DecodeError (\<lambda>b d. (d, None))
          (Inr \<lparr>StatusCode = 399, Body = \<lparr>bytes = [], readErr = EOF\<rparr>\<rparr>)
          (Some ()) = (Some (), None)"
  using status_classification [where de = scenario_DecodeError and dv = "\<lambda>b d. (d, None)"
      and c = 199 and b = "\<lparr>bytes = [], readErr = EOF\<rparr>" and v = "None :: unit option"
      and um = scenario_Unmarshal]
    status_classification [where de = scenario_DecodeError and dv = "\<lambda>b d. (d, None)"
      and c = 399 and b = "\<lparr>bytes = [], readErr = EOF\<rparr>" and v = "Some ()"
      and um = scenario_Unmarshal]
  by (simp add: scenario_DecodeError_def Itoa_scenario Let_def)

text \<open>
  C7. When the line read passes the filter and its payload (the line trimmed, the data
  prefix stripped, trimmed again) begins with the termination token, the loop stops and
  the call returns what was accumulated, with no error and without a further call of
  \<^verbatim>\<open>onData\<close>. This is the only way to return without an error: a call that returns no
  error has read lines that are not sentinels and then, as the last line it read, a
  sentinel.
\<close>

theorem sentinel_exit:
  "(is_line s \<and> sentinel s \<and> bytes r = s @ rest \<longrightarrow>
      stream_loop um r out prev cs n =
        \<lparr>ret_output = out, ret_err = None, onData_calls = cs, lines_read = Suc n\<rparr>)
   \<and> (ret_err (stream_loop um r out prev cs n) = None \<longrightarrow>
      (\<exists>ls s rest. bytes r = concat ls @ s @ rest
         \<and> (\<forall>l\<in>set ls. is_line l \<and> \<not> sentinel l) \<and> is_line s \<and> sentinel s
         \<and> lines_read (stream_loop um r out prev cs n) = Suc (n + length ls)))"
proof (intro conjI impI)
  assume "is_line s \<and> sentinel s \<and> bytes r = s @ rest"
  then have "is_line s" and "bytes r = s @ rest" and "sentinel s"
    by simp_all
  then show "stream_loop um r out prev cs n =
        \<lparr>ret_output = out, ret_err = None, onData_calls = cs, lines_read = Suc n\<rparr>"
    by (rule loop_done)
next
  assume ok: "ret_err (stream_loop um r out prev cs n) = None"
  obtain ls tail where b: "bytes r = concat ls @ tail" and ls: "\<forall>l\<in>set ls. is_line l"
    and t: "nl \<notin> set tail"
    using body_lines_exist [of "bytes r"] by blast
  from success_at_sentinel [OF ls t b ok]
  obtain pre s post where sp: "ls = pre @ s # post" and pre: "\<forall>l\<in>set pre. \<not> sentinel l"
    and s: "sentinel s"
    and k: "lines_read (stream_loop um r out prev cs n) = Suc (n + length pre)"
    by blast
  from sp b have "bytes r = concat pre @ s @ (concat post @ tail)" by simp
  moreover from sp ls pre have "\<forall>l\<in>set pre. is_line l \<and> \<not> sentinel l" by simp
  moreover from sp ls have "is_line s" by simp
  ultimately show "\<exists>ls s rest. bytes r = concat ls @ s @ rest
         \<and> (\<forall>l\<in>set ls. is_line l \<and> \<not> sentinel l) \<and> is_line s \<and> sentinel s
         \<and> lines_read (stream_loop um r out prev cs n) = Suc (n + length ls)"
    using s k by blast
qed

theorem sentinel_exit_witness:
  "stream_loop scenario_Unmarshal
     \<lparr>bytes = (''data: [DONE] trailing text'' @ [nl]) @ hello_line, readErr = EOF\<rparr>
     \<lparr>Choices = [\<lparr>Text = ''Hello''\<rparr>]\<rparr> [] [] 0
   = \<lparr>ret_output = \<lparr>Choices = [\<lparr>Text = ''Hello''\<rparr>]\<rparr>, ret_err = None, onData_calls = [],
      lines_read = 1\<rparr>"
proof -
  have "is_line (''data: [DONE] trailing text'' @ [nl])"
    and "sentinel (''data: [DONE] trailing text'' @ [nl])"
    by code_simp+
  then show ?thesis
    using sentinel_exit [of "''data: [DONE] trailing text'' @ [nl]"
        "\<lparr>bytes = (''data: [DONE] trailing text'' @ [nl]) @ hello_line, readErr = EOF\<rparr>"
        hello_line scenario_Unmarshal "\<lparr>Choices = [\<lparr>Text = ''Hello''\<rparr>]\<rparr>" "[]" "[]" 0]
    by simp
qed

text \<open>
  C8. A line that, trimmed, does not begin with the data prefix (a blank line, a
  comment, a field of another name) is skipped: the pass that reads it changes neither
  the accumulated value nor the carried text and does not call \<^verbatim>\<open>onData\<close>. So taking
  such a line out of a body, wherever it stands among the lines, changes neither the
  values returned nor the calls of \<^verbatim>\<open>onData\<close>.
\<close>

theorem ignorable_line_skipped:
  assumes "is_line l" and "\<not> data_line l"
  shows "stream_loop um (r\<lparr>bytes := l @ rest\<rparr>) out prev cs n
           = stream_loop um (r\<lparr>bytes := rest\<rparr>) out prev cs (Suc n)
       \<and> ((\<forall>x\<in>set pre. is_line x) \<longrightarrow>
            outcome (stream_loop um (r\<lparr>bytes := concat pre @ l @ rest\<rparr>) out prev cs n)
              = outcome (stream_loop um (r\<lparr>bytes := concat pre @ rest\<rparr>) out prev cs n))"
proof (intro conjI impI)
  have "bytes (r\<lparr>bytes := l @ rest\<rparr>) = l @ rest" by simp
  from loop_skip [OF assms(1) this assms(2)]
  show "stream_loop um (r\<lparr>bytes := l @ rest\<rparr>) out prev cs n
           = stream_loop um (r\<lparr>bytes := rest\<rparr>) out prev cs (Suc n)"
    by simp
next
  assume "\<forall>x\<in>set pre. is_line x"
  from skip_in_stream [OF this assms]
  show "outcome (stream_loop um (r\<lparr>bytes := concat pre @ l @ rest\<rparr>) out prev cs n)
      = outcome (stream_loop um (r\<lparr>bytes := concat pre @ rest\<rparr>) out prev cs n)" .
qed

theorem ignorable_line_skipped_witness:
  "outcome (stream_loop scenario_Unmarshal
      \<lparr>bytes = concat [hello_line] @ comment_line @ done_line, readErr = EOF\<rparr>
      \<lparr>Choices = []\<rparr> [] [] 0)
   = (\<lparr>Choices = [\<lparr>Text = ''Hello''\<rparr>]\<rparr>, None, [\<lparr>Choices = [\<lparr>Text = ''Hello''\<rparr>]\<rparr>])"
proof -
  have c: "is_line comment_line" "\<not> data_line comment_line"
    by code_simp+
  have "outcome (stream_loop scenario_Unmarshal
      \<lparr>bytes = concat [hello_line] @ done_line, readErr = EOF\<rparr> \<lparr>Choices = []\<rparr> [] [] 0)
   = (\<lparr>Choices = [\<lparr>Text = ''Hello''\<rparr>]\<rparr>, None, [\<lparr>Choices = [\<lparr>Text = ''Hello''\<rparr>]\<rparr>])"
    by code_simp
  with ignorable_line_skipped [OF c, where um = scenario_Unmarshal
      and r = "\<lparr>bytes = [], readErr = EOF\<rparr>" and rest = done_line
      and out = "\<lparr>Choices = []\<rparr>" and prev = "[]" and cs = "[]" and n = 0
      and pre = "[hello_line]"]
  show ?thesis
    by (simp add: hello_line_frame)
qed

text \<open>
  C9. Under a status below 200 or from 400 on, \<^verbatim>\<open>sendStreamRequest\<close> returns the zero
  value, which has no choices, together with an error: \<^verbatim>\<open>ReadBytes\<close> is never called, so
  no line of the stream is read and no frame merged, and \<^verbatim>\<open>onData\<close> is never called.
\<close>

theorem stream_status_error:
  assumes "c < 200 \<or> 400 \<le> c"
  shows "let r = sendStreamRequest de um (Inr \<lparr>StatusCode = c, Body = b\<rparr>)
         in ret_output r = \<lparr>Choices = []\<rparr> \<and> ret_err r \<noteq> None
            \<and> onData_calls r = [] \<and> lines_read r = 0"
  using out_of_range [OF assms]
  by (auto simp: sendStreamRequest_def Let_def split: prod.splits)

theorem stream_status_error_witness:
  "sendStreamRequest scenario_DecodeError scenario_Unmarshal
     (Inr \<lparr>StatusCode = 500, Body = \<lparr>bytes = hello_line @ done_line, readErr = EOF\<rparr>\<rparr>)
   = \<lparr>ret_output = \<lparr>Choices = []\<rparr>, ret_err = Some (Errorf ''error, status code: 500''),
      onData_calls = [], lines_read = 0\<rparr>"
proof -
  let ?r = "sendStreamRequest scenario_DecodeError scenario_Unmarshal
     (Inr \<lparr>StatusCode = 500, Body = \<lparr>bytes = hello_line @ done_line, readErr = EOF\<rparr>\<rparr>)"
  have "ret_err ?r = Some (Errorf ''error, status code: 500'')"
    by (simp add: sendStreamRequest_def StatusOK_def StatusBadRequest_def
        scenario_DecodeError_def hello_line_def done_line_def Itoa_scenario)
  moreover from stream_status_error [of 500 scenario_DecodeError scenario_Unmarshal
      "\<lparr>bytes = hello_line @ done_line, readErr = EOF\<rparr>"]
  have "ret_output ?r = \<lparr>Choices = []\<rparr>" "onData_calls ?r = []" "lines_read ?r = 0"
    by (simp_all add: Let_def)
  ultimately show ?thesis
    by (cases ?r) simp
qed

text \<open>
  C10. The data prefix is the six bytes \<^verbatim>\<open>data: \<close>, the last of them a space. A line
  that, trimmed, begins with \<^verbatim>\<open>data:\<close> and goes on with a byte other than a space, or
  ends there, is skipped like any other line that is not a data line: its payload is
  neither compared with the termination token nor decoded.
\<close>

theorem data_prefix_needs_space:
  "dataPrefix = ''data: '' \<and> length dataPrefix = 6 \<and> last dataPrefix = CHR '' ''
   \<and> (is_line l \<and> TrimSpace l = ''data:'' @ x \<and> (x = [] \<or> hd x \<noteq> CHR '' '') \<longrightarrow>
        stream_loop um (r\<lparr>bytes := l @ rest\<rparr>) out prev cs n
          = stream_loop um (r\<lparr>bytes := rest\<rparr>) out prev cs (Suc n))"
proof (intro conjI impI)
  assume a: "is_line l \<and> TrimSpace l = ''data:'' @ x \<and> (x = [] \<or> hd x \<noteq> CHR '' '')"
  then have "\<not> data_line l"
    by (cases x) (auto simp: data_line_def HasPrefix_def dataPrefix_def)
  moreover have "bytes (r\<lparr>bytes := l @ rest\<rparr>) = l @ rest" by simp
  ultimately show "stream_loop um (r\<lparr>bytes := l @ rest\<rparr>) out prev cs n
          = stream_loop um (r\<lparr>bytes := rest\<rparr>) out prev cs (Suc n)"
    using a loop_skip [of l "r\<lparr>bytes := l @ rest\<rparr>" rest] by simp
qed (simp_all add: dataPrefix_def)

theorem data_prefix_needs_space_witness:
  "stream_loop scenario_Unmarshal \<lparr>bytes = (''data:[DONE]'' @ [nl]) @ [], readErr = EOF\<rparr>
      \<lparr>Choices = []\<rparr> [] [] 0
   = \<lparr>ret_output = \<lparr>Choices = []\<rparr>, ret_err = Some EOF, onData_calls = [], lines_read = 2\<rparr>"
proof -
  have "is_line (''data:[DONE]'' @ [nl])" and "TrimSpace (''data:[DONE]'' @ [nl]) = ''data:'' @ ''[DONE]''"
    by code_simp+
  with data_prefix_needs_space [where l = "''data:[DONE]'' @ [nl]" and x = "''[DONE]''"
      and um = scenario_Unmarshal and r = "\<lparr>bytes = [], readErr = EOF\<rparr>" and rest = "[]"
      and out = "\<lparr>Choices = []\<rparr>" and prev = "[]" and cs = "[]" and n = 0]
  have "stream_loop scenario_Unmarshal \<lparr>bytes = (''data:[DONE]'' @ [nl]) @ [], readErr = EOF\<rparr>
      \<lparr>Choices = []\<rparr> [] [] 0
    = stream_loop scenario_Unmarshal \<lparr>bytes = [], readErr = EOF\<rparr> \<lparr>Choices = []\<rparr> [] [] 1"
    by simp
  then show ?thesis
    by (simp add: loop_end)
qed

end
